theory Spec2Isabelle
  imports Main "HOL-Library.Sublist"
begin

section \<open>Ocean Notes: the store adapter, the note collection and the search filter\<close>

text \<open>
  A shallow embedding of \<^verbatim>\<open>src/notes_frontend/src/App.js\<close>. The functions of the
  JavaScript platform that the file calls but does not define (\<^verbatim>\<open>JSON.parse\<close>,
  \<^verbatim>\<open>JSON.stringify\<close>, \<^verbatim>\<open>String.prototype.trim\<close>, \<^verbatim>\<open>String.prototype.toLowerCase\<close>)
  are arguments of the definitions that call them, so every theorem holds for whatever
  these functions compute; the values \<^verbatim>\<open>generateId()\<close> and \<^verbatim>\<open>Date.now()\<close> return
  are arguments of the operation that reads them.
\<close>

subsection \<open>Values\<close>

text \<open>
  What \<^verbatim>\<open>JSON.parse\<close> can return. Numbers are kept as integers (\<^verbatim>\<open>Date.now()\<close> is a
  count of milliseconds); the store adapter never looks inside a number, a string or an
  object. The members of an object are kept in the order of the text.
\<close>

datatype json =
    JNull
  | JBool bool
  | JNum int
  | JStr string
  | JArr "json list"
  | JObj "(string \<times> json) list"

text \<open>The exception \<^verbatim>\<open>JSON.parse\<close> throws on a text that is not JSON.\<close>

datatype js_error = SyntaxError

text \<open>
  A note, as \<^verbatim>\<open>createNote\<close> builds it:
  \<^verbatim>\<open>{ id, title: 'Untitled Note', content: '', updatedAt: Date.now() }\<close>.
  The field \<^verbatim>\<open>id\<close> is \<open>id'\<close> here, since \<open>id\<close> is the identity function of HOL.
\<close>

record Note =
  id' :: string
  title :: string
  content :: string
  updatedAt :: int

text \<open>The JavaScript object a note is, as \<^verbatim>\<open>JSON.stringify\<close> receives it.\<close>

definition note_json :: "Note \<Rightarrow> json" where
  "note_json n =
     JObj [(''id'', JStr (id' n)), (''title'', JStr (title n)),
           (''content'', JStr (content n)), (''updatedAt'', JNum (updatedAt n))]"

subsection \<open>The persistent store adapter\<close>

text \<open>
  \<^verbatim>\<open>localStorage\<close>: string keys to string values; \<^verbatim>\<open>getItem\<close> of a missing key is
  \<^verbatim>\<open>null\<close> (here \<open>None\<close>). The store takes every write: a write the browser refuses (the
  quota) would raise in \<^verbatim>\<open>saveNotes\<close>, which has no handler, and is not modelled.
\<close>

type_synonym storage = "string \<rightharpoonup> string"

definition STORAGE_KEY :: string where
  "STORAGE_KEY = ''notes_app.v1.items''"

definition getItem :: "storage \<Rightarrow> string \<Rightarrow> string option" where
  "getItem ls k = ls k"

definition setItem :: "storage \<Rightarrow> string \<Rightarrow> string \<Rightarrow> storage" where
  "setItem ls k v = ls(k \<mapsto> v)"

text \<open>\<^verbatim>\<open>Array.isArray\<close> on a parsed value.\<close>

fun isArray :: "json \<Rightarrow> bool" where
  "isArray (JArr xs) = True"
| "isArray v = False"

text \<open>
  The body of the \<^verbatim>\<open>try\<close> block of \<^verbatim>\<open>loadNotes\<close>:
  \<^verbatim>\<open>
    const raw = localStorage.getItem(STORAGE_KEY);
    if (!raw) return [];
    const parsed = JSON.parse(raw);
    if (!Array.isArray(parsed)) return [];
    return parsed;
  \<close>
  \<^verbatim>\<open>!raw\<close> holds for \<^verbatim>\<open>null\<close> and for the empty string. An exception of
  \<^verbatim>\<open>JSON.parse\<close> leaves the block as \<open>Inl\<close>.
\<close>

definition loadNotes_try :: "(string \<Rightarrow> js_error + json) \<Rightarrow> storage \<Rightarrow> js_error + json list" where
  "loadNotes_try JSON_parse ls =
     (case getItem ls STORAGE_KEY of
        None \<Rightarrow> Inr []
      | Some raw \<Rightarrow>
          if raw = [] then Inr []
          else (case JSON_parse raw of
                  Inl e \<Rightarrow> Inl e
                | Inr parsed \<Rightarrow>
                    if \<not> isArray parsed then Inr []
                    else (case parsed of JArr xs \<Rightarrow> Inr xs | _ \<Rightarrow> Inr [])))"

text \<open>\<^verbatim>\<open>loadNotes\<close>: the block above, and \<^verbatim>\<open>catch { return []; }\<close>.\<close>

definition loadNotes :: "(string \<Rightarrow> js_error + json) \<Rightarrow> storage \<Rightarrow> js_error + json list" where
  "loadNotes JSON_parse ls =
     (case loadNotes_try JSON_parse ls of
        Inl e \<Rightarrow> Inr []
      | Inr xs \<Rightarrow> Inr xs)"

text \<open>\<^verbatim>\<open>saveNotes\<close>: \<^verbatim>\<open>localStorage.setItem(STORAGE_KEY, JSON.stringify(notes))\<close>.\<close>

definition saveNotes :: "(json \<Rightarrow> string) \<Rightarrow> storage \<Rightarrow> json list \<Rightarrow> storage" where
  "saveNotes JSON_stringify ls notes = setItem ls STORAGE_KEY (JSON_stringify (JArr notes))"

subsection \<open>Array helpers of the platform\<close>

text \<open>
  \<^verbatim>\<open>Array.prototype.findIndex\<close>: the index of the first element that satisfies the
  predicate, \<open>-1\<close> when there is none.
\<close>

fun findIndex_from :: "('a \<Rightarrow> bool) \<Rightarrow> int \<Rightarrow> 'a list \<Rightarrow> int" where
  "findIndex_from P i [] = - 1"
| "findIndex_from P i (x # xs) = (if P x then i else findIndex_from P (i + 1) xs)"

definition findIndex :: "('a \<Rightarrow> bool) \<Rightarrow> 'a list \<Rightarrow> int" where
  "findIndex P xs = findIndex_from P 0 xs"

text \<open>\<^verbatim>\<open>xs[i]\<close>: \<^verbatim>\<open>undefined\<close> (here \<open>None\<close>) when \<open>i\<close> is not an index of \<open>xs\<close>.\<close>

definition at_index :: "'a list \<Rightarrow> int \<Rightarrow> 'a option" where
  "at_index xs i = (if 0 \<le> i \<and> i < int (length xs) then Some (xs ! nat i) else None)"

text \<open>
  \<^verbatim>\<open>Array.prototype.slice\<close>: a negative bound counts from the end, and both bounds
  are clamped to the array.
\<close>

definition slice_bound :: "nat \<Rightarrow> int \<Rightarrow> nat" where
  "slice_bound len i = (if i < 0 then nat (max (int len + i) 0) else min (nat i) len)"

definition slice :: "'a list \<Rightarrow> int \<Rightarrow> int \<Rightarrow> 'a list" where
  "slice xs start final =
     (let k = slice_bound (length xs) start; e = slice_bound (length xs) final
      in take (e - k) (drop k xs))"

definition slice_from :: "'a list \<Rightarrow> int \<Rightarrow> 'a list" where
  "slice_from xs start = drop (slice_bound (length xs) start) xs"

text \<open>\<^verbatim>\<open>String.prototype.includes\<close>: does \<open>q\<close> occur in \<open>s\<close> at some position?\<close>

fun includes_str :: "string \<Rightarrow> string \<Rightarrow> bool" where
  "includes_str [] q = (q = [])"
| "includes_str (c # cs) q = (prefix q (c # cs) \<or> includes_str cs q)"

subsection \<open>The note collection manager\<close>

text \<open>
  The state of \<^verbatim>\<open>App\<close>: the three \<^verbatim>\<open>useState\<close> cells. \<^verbatim>\<open>selectedId\<close> is a note id
  or \<^verbatim>\<open>null\<close> (here \<open>None\<close>).
\<close>

record app_state =
  "notes" :: "Note list"
  selectedId :: "string option"
  query :: string

text \<open>
  The initial state, from the sequence of notes \<^verbatim>\<open>loadNotes()\<close> returns (both
  initialisers read the same store):
  \<^verbatim>\<open>useState(() => loadNotes())\<close>, \<^verbatim>\<open>useState(() => (loadNotes()[0]?.id ?? null))\<close>,
  \<^verbatim>\<open>useState('')\<close>.
\<close>

definition App_init :: "Note list \<Rightarrow> app_state" where
  "App_init loaded =
     \<lparr>notes = loaded,
      selectedId = (case at_index loaded 0 of None \<Rightarrow> None | Some n \<Rightarrow> Some (id' n)),
      query = ''''\<rparr>"

text \<open>
  \<^verbatim>\<open>createNote\<close>; \<open>newId\<close> is what \<^verbatim>\<open>generateId()\<close> returned and \<open>now\<close> what
  \<^verbatim>\<open>Date.now()\<close> returned.
\<close>

definition createNote :: "string \<Rightarrow> int \<Rightarrow> app_state \<Rightarrow> app_state" where
  "createNote newId now s =
     (let newNote = \<lparr>id' = newId, title = ''Untitled Note'', content = '''', updatedAt = now\<rparr>;
          next = newNote # notes s
      in s\<lparr>notes := next, selectedId := Some newId\<rparr>)"

text \<open>
  \<^verbatim>\<open>deleteNote\<close>:
  \<^verbatim>\<open>
    const idx = notes.findIndex(n => n.id === id);
    const next = notes.filter(n => n.id !== id);
    setNotes(next);
    if (selectedId === id) {
      const fallback = next[Math.min(idx, next.length - 1)];
      setSelectedId(fallback?.id ?? null);
    }
  \<close>
\<close>

definition deleteNote :: "string \<Rightarrow> app_state \<Rightarrow> app_state" where
  "deleteNote i s =
     (let idx = findIndex (\<lambda>n. id' n = i) (notes s);
          next = filter (\<lambda>n. id' n \<noteq> i) (notes s)
      in if selectedId s = Some i
         then (let fallback = at_index next (min idx (int (length next) - 1))
               in s\<lparr>notes := next,
                    selectedId := (case fallback of None \<Rightarrow> None | Some n \<Rightarrow> Some (id' n))\<rparr>)
         else s\<lparr>notes := next\<rparr>)"

text \<open>
  A patch of \<^verbatim>\<open>updateNote\<close>: the editor sends \<^verbatim>\<open>{ title: v }\<close> or \<^verbatim>\<open>{ content: v }\<close>;
  a field the patch does not have is \<open>None\<close>.
\<close>

datatype patch = Patch (patch_title: "string option") (patch_content: "string option")

text \<open>The object spread \<^verbatim>\<open>{ ...n, ...patch, updatedAt: Date.now() }\<close>.\<close>

definition merge_patch :: "Note \<Rightarrow> patch \<Rightarrow> int \<Rightarrow> Note" where
  "merge_patch n p now =
     n\<lparr>title := (case patch_title p of None \<Rightarrow> title n | Some t \<Rightarrow> t),
       content := (case patch_content p of None \<Rightarrow> content n | Some c \<Rightarrow> c),
       updatedAt := now\<rparr>"

text \<open>
  \<^verbatim>\<open>updateNote\<close>:
  \<^verbatim>\<open>setNotes(prev => prev.map(n => (n.id === id ? { ...n, ...patch, updatedAt: Date.now() } : n)))\<close>.
\<close>

definition updateNote :: "string \<Rightarrow> patch \<Rightarrow> int \<Rightarrow> app_state \<Rightarrow> app_state" where
  "updateNote i p now s =
     s\<lparr>notes := map (\<lambda>n. if id' n = i then merge_patch n p now else n) (notes s)\<rparr>"

text \<open>
  \<^verbatim>\<open>duplicateNote\<close>:
  \<^verbatim>\<open>
    const original = notes.find(n => n.id === id);
    if (!original) return;
    const id2 = generateId();
    const dup = { ...original, id: id2, title: `${original.title} (Copy)`, updatedAt: Date.now() };
    const idx = notes.findIndex(n => n.id === id);
    const next = [...notes.slice(0, idx + 1), dup, ...notes.slice(idx + 1)];
    setNotes(next);
    setSelectedId(id2);
  \<close>
\<close>

definition duplicateNote :: "string \<Rightarrow> string \<Rightarrow> int \<Rightarrow> app_state \<Rightarrow> app_state" where
  "duplicateNote i id2 now s =
     (case find (\<lambda>n. id' n = i) (notes s) of
        None \<Rightarrow> s
      | Some original \<Rightarrow>
          (let dup = original\<lparr>id' := id2, title := title original @ '' (Copy)'', updatedAt := now\<rparr>;
               idx = findIndex (\<lambda>n. id' n = i) (notes s);
               next = slice (notes s) 0 (idx + 1) @ [dup] @ slice_from (notes s) (idx + 1)
           in s\<lparr>notes := next, selectedId := Some id2\<rparr>))"

text \<open>
  The user's actions. An action that generates an id or reads the clock carries the value
  read: \<open>Create newId now\<close>, \<open>Update id patch now\<close>, \<open>Duplicate id newId now\<close>.
  \<open>Select\<close> is a click on a note of the list, \<open>SetQuery\<close> an edit of the search box.
\<close>

datatype event =
    Create string int
  | Delete string
  | Update string patch int
  | Duplicate string string int
  | Select string
  | SetQuery string

fun step :: "app_state \<Rightarrow> event \<Rightarrow> app_state" where
  "step s (Create newId now) = createNote newId now s"
| "step s (Delete i) = deleteNote i s"
| "step s (Update i p now) = updateNote i p now s"
| "step s (Duplicate i id2 now) = duplicateNote i id2 now s"
| "step s (Select i) = s\<lparr>selectedId := Some i\<rparr>"
| "step s (SetQuery q) = s\<lparr>query := q\<rparr>"

text \<open>The ids of a collection, in order.\<close>

definition ids :: "app_state \<Rightarrow> string list" where
  "ids s = map id' (notes s)"

text \<open>
  The list only shows notes of the collection, so a click selects an id that is present;
  every other action is always possible.
\<close>

fun enabled :: "app_state \<Rightarrow> event \<Rightarrow> bool" where
  "enabled s (Select i) = (i \<in> set (ids s))"
| "enabled s e = True"

text \<open>The states the manager can be in: the initial one, and one more action at a time.\<close>

inductive reachable :: "app_state \<Rightarrow> bool" where
  init: "reachable (App_init loaded)"
| step: "reachable s \<Longrightarrow> enabled s e \<Longrightarrow> reachable (step s e)"

text \<open>
  An action reads a fresh id from \<^verbatim>\<open>generateId()\<close>: one that no note of the collection has.
  \<^verbatim>\<open>duplicateNote\<close> only calls \<^verbatim>\<open>generateId()\<close> when it has found the source note.
\<close>

fun generates_fresh :: "app_state \<Rightarrow> event \<Rightarrow> bool" where
  "generates_fresh s (Create newId now) = (newId \<notin> set (ids s))"
| "generates_fresh s (Duplicate i id2 now) = (i \<in> set (ids s) \<longrightarrow> id2 \<notin> set (ids s))"
| "generates_fresh s e = True"

text \<open>A sequence of actions, each generating a fresh id in the state it is applied to.\<close>

fun fresh_run :: "app_state \<Rightarrow> event list \<Rightarrow> bool" where
  "fresh_run s [] = True"
| "fresh_run s (e # es) = (generates_fresh s e \<and> fresh_run (step s e) es)"

text \<open>The invariant of the selection: it is none, or the id of a note of the collection.\<close>

definition selection_valid :: "app_state \<Rightarrow> bool" where
  "selection_valid s = (case selectedId s of None \<Rightarrow> True | Some i \<Rightarrow> i \<in> set (ids s))"

subsection \<open>The search filter\<close>

text \<open>
  The memo \<^verbatim>\<open>filtered\<close>, as a function of \<^verbatim>\<open>notes\<close> and \<^verbatim>\<open>query\<close>:
  \<^verbatim>\<open>
    const q = query.trim().toLowerCase();
    if (!q) return notes;
    return notes.filter(n => (n.title + ' ' + n.content).toLowerCase().includes(q));
  \<close>
\<close>

definition filtered :: "(string \<Rightarrow> string) \<Rightarrow> (string \<Rightarrow> string) \<Rightarrow> Note list \<Rightarrow> string \<Rightarrow> Note list" where
  "filtered trim toLowerCase ns qry =
     (let q = toLowerCase (trim qry)
      in if q = [] then ns
         else filter (\<lambda>n. includes_str (toLowerCase (title n @ '' '' @ content n)) q) ns)"

subsection \<open>Sample data and sample platform functions\<close>

text \<open>Three notes, with the ids \<open>a\<close>, \<open>b\<close> and \<open>c\<close>, for the concrete instances.\<close>

definition noteA :: Note where
  "noteA = \<lparr>id' = ''a'', title = ''Shopping'', content = ''milk'', updatedAt = 1\<rparr>"

definition noteB :: Note where
  "noteB = \<lparr>id' = ''b'', title = ''Work'', content = ''Call Bob'', updatedAt = 2\<rparr>"

definition noteC :: Note where
  "noteC = \<lparr>id' = ''c'', title = ''Ideas'', content = '''', updatedAt = 3\<rparr>"

text \<open>
  Stand-ins for \<^verbatim>\<open>toLowerCase\<close> and \<^verbatim>\<open>trim\<close> on ASCII letters and spaces, for the
  concrete instances.
\<close>

definition toLowerCase_ascii :: "string \<Rightarrow> string" where
  "toLowerCase_ascii =
     map (\<lambda>c. case map_of (zip ''ABCDEFGHIJKLMNOPQRSTUVWXYZ'' ''abcdefghijklmnopqrstuvwxyz'') c of
                None \<Rightarrow> c | Some d \<Rightarrow> d)"

definition trim_spaces :: "string \<Rightarrow> string" where
  "trim_spaces s = rev (dropWhile (\<lambda>c. c = CHR '' '') (rev (dropWhile (\<lambda>c. c = CHR '' '') s)))"

subsection \<open>An executable JSON codec for the concrete instances\<close>

text \<open>
  A printer that writes a value as \<^verbatim>\<open>JSON.stringify\<close> does (no white space, the short
  escapes, \<^verbatim>\<open>\u00XX\<close> for the other control characters) and a parser for the JSON
  grammar with integer numbers. They stand for the platform's functions in the concrete
  instances; the theorems about \<^verbatim>\<open>loadNotes\<close> and \<^verbatim>\<open>saveNotes\<close> do not depend on them.
\<close>

fun digits :: "nat \<Rightarrow> string" where
  "digits n = (if n < 10 then [''0123456789'' ! n] else digits (n div 10) @ [''0123456789'' ! (n mod 10)])"

declare digits.simps [simp del]

definition print_int :: "int \<Rightarrow> string" where
  "print_int i = (if i < 0 then CHR ''-'' # digits (nat (- i)) else digits (nat i))"

definition hex_digit :: "nat \<Rightarrow> char" where
  "hex_digit n = ''0123456789abcdef'' ! n"

definition escape :: "char \<Rightarrow> string" where
  "escape c =
     (if c = CHR 0x22 then [CHR 0x5C, CHR 0x22]
      else if c = CHR 0x5C then [CHR 0x5C, CHR 0x5C]
      else if c = CHR 0x08 then [CHR 0x5C, CHR ''b'']
      else if c = CHR 0x0C then [CHR 0x5C, CHR ''f'']
      else if c = CHR 0x0A then [CHR 0x5C, CHR ''n'']
      else if c = CHR 0x0D then [CHR 0x5C, CHR ''r'']
      else if c = CHR 0x09 then [CHR 0x5C, CHR ''t'']
      else if (of_char c :: nat) < 32
        then [CHR 0x5C, CHR ''u'', CHR ''0'', CHR ''0'',
              hex_digit (of_char c div 16), hex_digit (of_char c mod 16)]
      else [c])"

definition print_string :: "string \<Rightarrow> string" where
  "print_string s = CHR 0x22 # concat (map escape s) @ [CHR 0x22]"

fun print_json :: "json \<Rightarrow> string"
  and print_elements :: "json list \<Rightarrow> string"
  and print_members :: "(string \<times> json) list \<Rightarrow> string" where
  "print_json JNull = ''null''"
| "print_json (JBool b) = (if b then ''true'' else ''false'')"
| "print_json (JNum i) = print_int i"
| "print_json (JStr s) = print_string s"
| "print_json (JArr vs) = CHR ''['' # print_elements vs @ '']''"
| "print_json (JObj ms) = CHR ''{'' # print_members ms @ ''}''"
| "print_elements [] = []"
| "print_elements [v] = print_json v"
| "print_elements (v # w # vs) = print_json v @ CHR '','' # print_elements (w # vs)"
| "print_members [] = []"
| "print_members [(k, v)] = print_string k @ CHR '':'' # print_json v"
| "print_members ((k, v) # m # ms) =
     print_string k @ CHR '':'' # print_json v @ CHR '','' # print_members (m # ms)"

definition is_ws :: "char \<Rightarrow> bool" where
  "is_ws c \<longleftrightarrow> c = CHR '' '' \<or> c = CHR 0x09 \<or> c = CHR 0x0A \<or> c = CHR 0x0D"

definition skip_ws :: "string \<Rightarrow> string" where
  "skip_ws = dropWhile is_ws"

definition is_digit :: "char \<Rightarrow> bool" where
  "is_digit c \<longleftrightarrow> c \<in> set ''0123456789''"

definition digit_value :: "char \<Rightarrow> nat" where
  "digit_value c = of_char c - 48"

definition hex_value :: "char \<Rightarrow> nat option" where
  "hex_value c =
     map_of (zip ''0123456789abcdefABCDEF'' [0, 1, 2, 3, 4, 5, 6, 7, 8, 9, 10, 11, 12, 13, 14, 15,
       10, 11, 12, 13, 14, 15]) c"

text \<open>An unsigned JSON integer: \<^verbatim>\<open>0\<close>, or a digit other than \<^verbatim>\<open>0\<close> and more digits.\<close>

definition parse_nat :: "string \<Rightarrow> (nat \<times> string) option" where
  "parse_nat s =
     (let ds = takeWhile is_digit s; r = dropWhile is_digit s
      in if ds = [] \<or> (length ds > 1 \<and> hd ds = CHR ''0'') then None
         else Some (foldl (\<lambda>n c. 10 * n + digit_value c) 0 ds, r))"

text \<open>What may follow a number: the end of the text, or a character that is no digit.\<close>

definition ends_number :: "string \<Rightarrow> bool" where
  "ends_number r \<longleftrightarrow> (case r of [] \<Rightarrow> True | c # _ \<Rightarrow> \<not> is_digit c)"

definition parse_int :: "string \<Rightarrow> (int \<times> string) option" where
  "parse_int s =
     (case s of
        [] \<Rightarrow> None
      | c # r \<Rightarrow>
          if c = CHR ''-'' then map_option (\<lambda>(n, r'). (- int n, r')) (parse_nat r)
          else map_option (\<lambda>(n, r'). (int n, r')) (parse_nat s))"

text \<open>The letter after a backslash, for the short escapes.\<close>

definition unescape :: "char \<Rightarrow> char option" where
  "unescape e =
     map_of [(CHR 0x22, CHR 0x22), (CHR 0x5C, CHR 0x5C), (CHR ''/'', CHR ''/''),
             (CHR ''b'', CHR 0x08), (CHR ''f'', CHR 0x0C), (CHR ''n'', CHR 0x0A),
             (CHR ''r'', CHR 0x0D), (CHR ''t'', CHR 0x09)] e"

text \<open>
  \<^verbatim>\<open>\uXXXX\<close>: the four hexadecimal digits at the head of the text, as a character when
  the code is below 256 (a \<open>char\<close> is a byte).
\<close>

definition parse_hex4 :: "string \<Rightarrow> char option" where
  "parse_hex4 s =
     (case map hex_value (take 4 s) of
        [Some a, Some b, Some c, Some d] \<Rightarrow>
          if a = 0 \<and> b = 0 then Some (char_of (16 * c + d)) else None
      | _ \<Rightarrow> None)"

text \<open>The characters of a string after its opening quote, up to the closing quote.\<close>

fun parse_chars :: "string \<Rightarrow> (string \<times> string) option" where
  "parse_chars [] = None"
| "parse_chars (c # cs) =
     (if c = CHR 0x22 then Some ([], cs)
      else if c = CHR 0x5C then
        (case cs of
           [] \<Rightarrow> None
         | e # r \<Rightarrow>
             if e = CHR ''u'' then
               (case parse_hex4 r of
                  None \<Rightarrow> None
                | Some d \<Rightarrow> map_option (\<lambda>(x, r'). (d # x, r')) (parse_chars (drop 4 r)))
             else
               (case unescape e of
                  None \<Rightarrow> None
                | Some d \<Rightarrow> map_option (\<lambda>(x, r'). (d # x, r')) (parse_chars r)))
      else if (of_char c :: nat) < 32 then None
      else map_option (\<lambda>(x, r'). (c # x, r')) (parse_chars cs))"

text \<open>
  Values, the elements of an array after \<^verbatim>\<open>[\<close> and the members of an object after
  \<^verbatim>\<open>{\<close>. The first argument bounds the number of nested calls; \<open>parse_json\<close> starts
  with more than the text is long.
\<close>

fun parse_value :: "nat \<Rightarrow> string \<Rightarrow> (json \<times> string) option"
  and parse_elements :: "nat \<Rightarrow> string \<Rightarrow> (json list \<times> string) option"
  and parse_members :: "nat \<Rightarrow> string \<Rightarrow> ((string \<times> json) list \<times> string) option" where
  "parse_value 0 s = None"
| "parse_value (Suc f) s =
     (case skip_ws s of
        [] \<Rightarrow> None
      | c # r \<Rightarrow>
          if c = CHR 0x22 then map_option (\<lambda>(x, r'). (JStr x, r')) (parse_chars r)
          else if c = CHR ''['' then
            (case skip_ws r of
               [] \<Rightarrow> None
             | d # r' \<Rightarrow>
                 if d = CHR '']'' then Some (JArr [], r')
                 else map_option (\<lambda>(vs, r''). (JArr vs, r'')) (parse_elements f (d # r')))
          else if c = CHR ''{'' then
            (case skip_ws r of
               [] \<Rightarrow> None
             | d # r' \<Rightarrow>
                 if d = CHR ''}'' then Some (JObj [], r')
                 else map_option (\<lambda>(ms, r''). (JObj ms, r'')) (parse_members f (d # r')))
          else if prefix ''null'' (c # r) then Some (JNull, drop 4 (c # r))
          else if prefix ''true'' (c # r) then Some (JBool True, drop 4 (c # r))
          else if prefix ''false'' (c # r) then Some (JBool False, drop 5 (c # r))
          else map_option (\<lambda>(i, r'). (JNum i, r')) (parse_int (c # r)))"
| "parse_elements 0 s = None"
| "parse_elements (Suc f) s =
     (case parse_value f s of
        None \<Rightarrow> None
      | Some (v, r) \<Rightarrow>
          (case skip_ws r of
             [] \<Rightarrow> None
           | d # r' \<Rightarrow>
               if d = CHR '','' then map_option (\<lambda>(vs, r''). (v # vs, r'')) (parse_elements f r')
               else if d = CHR '']'' then Some ([v], r')
               else None))"
| "parse_members 0 s = None"
| "parse_members (Suc f) s =
     (case skip_ws s of
        [] \<Rightarrow> None
      | c # r \<Rightarrow>
          if c \<noteq> CHR 0x22 then None
          else
            (case parse_chars r of
               None \<Rightarrow> None
             | Some (k, r1) \<Rightarrow>
                 (case skip_ws r1 of
                    [] \<Rightarrow> None
                  | d # r2 \<Rightarrow>
                      if d \<noteq> CHR '':'' then None
                      else
                        (case parse_value f r2 of
                           None \<Rightarrow> None
                         | Some (v, r3) \<Rightarrow>
                             (case skip_ws r3 of
                                [] \<Rightarrow> None
                              | e # r4 \<Rightarrow>
                                  if e = CHR '','' then
                                    map_option (\<lambda>(ms, r5). ((k, v) # ms, r5)) (parse_members f r4)
                                  else if e = CHR ''}'' then Some ([(k, v)], r4)
                                  else None)))))"

definition parse_json :: "string \<Rightarrow> js_error + json" where
  "parse_json s =
     (case parse_value (Suc (length s)) s of
        None \<Rightarrow> Inl SyntaxError
      | Some (v, r) \<Rightarrow> if skip_ws r = [] then Inr v else Inl SyntaxError)"


section \<open>Properties\<close>

subsection \<open>Properties of the store adapter\<close>


lemma loadNotes_cases:
  "loadNotes P ls =
     (case ls STORAGE_KEY of
        None \<Rightarrow> Inr []
      | Some raw \<Rightarrow>
          if raw = [] then Inr []
          else (case P raw of Inr (JArr xs) \<Rightarrow> Inr xs | _ \<Rightarrow> Inr []))"
  by (simp add: loadNotes_def loadNotes_try_def getItem_def
      split: option.split sum.split json.split)

text \<open>
  C6. \<^verbatim>\<open>loadNotes()\<close> never throws, whatever the store holds and whatever
  \<^verbatim>\<open>JSON.parse\<close> does; and it returns the empty sequence when the key is absent, when
  the stored text does not parse, and when it parses to a value that is not an array.
\<close>

theorem loadNotes_never_throws:
  "(\<exists>xs. loadNotes P ls = Inr xs) \<and>
   (ls STORAGE_KEY = None \<longrightarrow> loadNotes P ls = Inr []) \<and>
   (\<forall>raw e. ls STORAGE_KEY = Some raw \<and> P raw = Inl e \<longrightarrow> loadNotes P ls = Inr []) \<and>
   (\<forall>raw v. ls STORAGE_KEY = Some raw \<and> P raw = Inr v \<and> \<not> isArray v \<longrightarrow>
      loadNotes P ls = Inr [])"
proof (intro conjI allI impI)
  show "\<exists>xs. loadNotes P ls = Inr xs"
    by (simp add: loadNotes_def split: sum.split)
next
  assume "ls STORAGE_KEY = None"
  then show "loadNotes P ls = Inr []"
    by (simp add: loadNotes_cases)
next
  fix raw e
  assume "ls STORAGE_KEY = Some raw \<and> P raw = Inl e"
  then show "loadNotes P ls = Inr []"
    by (simp add: loadNotes_cases)
next
  fix raw v
  assume "ls STORAGE_KEY = Some raw \<and> P raw = Inr v \<and> \<not> isArray v"
  then show "loadNotes P ls = Inr []"
    by (cases v) (simp_all add: loadNotes_cases)
qed

text \<open>
  C10. A stored text that parses to an array is returned as \<^verbatim>\<open>JSON.parse\<close> gave it:
  \<^verbatim>\<open>loadNotes\<close> does not look at the elements, so an array of numbers, of strings or
  of objects without the fields of a note comes back unchanged. (The empty text is no
  JSON text: \<^verbatim>\<open>JSON.parse('')\<close> throws.)
\<close>

theorem loadNotes_returns_parsed_array:
  assumes "ls STORAGE_KEY = Some raw"
    and "P raw = Inr (JArr xs)"
    and "P [] = Inl SyntaxError"
  shows "loadNotes P ls = Inr xs"
proof -
  from assms(2,3) have "raw \<noteq> []"
    by auto
  with assms(1,2) show ?thesis
    by (simp add: loadNotes_cases)
qed

text \<open>
  C7. Saving a sequence of notes and loading it again returns the same sequence, in the same
  order and with the same fields, whatever the store held before. \<^verbatim>\<open>loadNotes\<close> reads the
  text \<^verbatim>\<open>saveNotes\<close> wrote through \<^verbatim>\<open>JSON.parse\<close>, so the theorem rests on two facts
  about the platform: \<^verbatim>\<open>JSON.parse\<close> gives back the array of notes from the text
  \<^verbatim>\<open>JSON.stringify\<close> made of it, and \<^verbatim>\<open>JSON.parse('')\<close> throws. Both hold of the
  executable codec above for every sequence of notes (\<open>parse_json_print_notes\<close> and
  \<open>parse_json_empty\<close> below).
\<close>

theorem saveNotes_loadNotes_roundtrip:
  assumes "P (S (JArr (map note_json ns))) = Inr (JArr (map note_json ns))"
    and "P [] = Inl SyntaxError"
  shows "loadNotes P (saveNotes S ls (map note_json ns)) = Inr (map note_json ns)"
proof -
  from assms have "S (JArr (map note_json ns)) \<noteq> []"
    by auto
  with assms(1) show ?thesis
    by (simp add: loadNotes_cases saveNotes_def setItem_def)
qed

subsection \<open>Properties of the collection manager and of the filter\<close>

lemma findIndex_from_absent: "\<forall>x\<in>set xs. \<not> P x \<Longrightarrow> findIndex_from P i xs = - 1"
  by (induction xs arbitrary: i) auto

lemma findIndex_from_first:
  "k < length xs \<Longrightarrow> P (xs ! k) \<Longrightarrow> \<forall>j<k. \<not> P (xs ! j) \<Longrightarrow> findIndex_from P i xs = i + int k"
proof (induction xs arbitrary: i k)
  case Nil
  then show ?case by simp
next
  case (Cons x xs)
  show ?case
  proof (cases k)
    case 0
    with Cons.prems show ?thesis by simp
  next
    case (Suc m)
    with Cons.prems have "\<not> P x" by auto
    moreover from Suc Cons.prems have "findIndex_from P (i + 1) xs = (i + 1) + int m"
      by (intro Cons.IH) auto
    ultimately show ?thesis using Suc by simp
  qed
qed

lemma findIndex_absent: "\<forall>x\<in>set xs. \<not> P x \<Longrightarrow> findIndex P xs = - 1"
  by (simp add: findIndex_def findIndex_from_absent)

lemma findIndex_first:
  "k < length xs \<Longrightarrow> P (xs ! k) \<Longrightarrow> \<forall>j<k. \<not> P (xs ! j) \<Longrightarrow> findIndex P xs = int k"
  using findIndex_from_first [of k xs P 0] by (simp add: findIndex_def)

lemma distinct_map_nth_neq:
  assumes "distinct (map f xs)" and "k < length xs" and "j < length xs" and "j \<noteq> k"
  shows "f (xs ! j) \<noteq> f (xs ! k)"
proof -
  from assms have "map f xs ! j \<noteq> map f xs ! k"
    by (simp add: distinct_conv_nth)
  with assms show ?thesis by simp
qed

lemma filter_neq_distinct:
  "distinct (map f xs) \<Longrightarrow> k < length xs \<Longrightarrow>
     filter (\<lambda>x. f x \<noteq> f (xs ! k)) xs = take k xs @ drop (Suc k) xs"
proof (induction xs arbitrary: k)
  case Nil
  then show ?case by simp
next
  case (Cons x xs)
  show ?case
  proof (cases k)
    case 0
    from Cons.prems have "\<forall>y\<in>set xs. f y \<noteq> f x" by (auto simp: image_iff)
    then have "filter (\<lambda>y. f y \<noteq> f x) xs = xs"
      by (simp add: filter_id_conv)
    with 0 show ?thesis by simp
  next
    case (Suc m)
    with Cons.prems have m: "m < length xs" and d: "distinct (map f xs)" by auto
    from Suc m Cons.prems have "f x \<noteq> f (xs ! m)" by auto
    with Cons.IH [OF d m] Suc show ?thesis by simp
  qed
qed

lemma notes_deleteNote: "notes (deleteNote i s) = filter (\<lambda>n. id' n \<noteq> i) (notes s)"
  by (simp add: deleteNote_def Let_def)

lemma selectedId_deleteNote_other:
  "selectedId s \<noteq> Some i \<Longrightarrow> selectedId (deleteNote i s) = selectedId s"
  by (simp add: deleteNote_def Let_def)

lemma selectedId_deleteNote_selected:
  "selectedId s = Some i \<Longrightarrow>
   selectedId (deleteNote i s) =
     map_option id' (at_index (filter (\<lambda>n. id' n \<noteq> i) (notes s))
        (min (findIndex (\<lambda>n. id' n = i) (notes s))
             (int (length (filter (\<lambda>n. id' n \<noteq> i) (notes s))) - 1)))"
  by (simp add: deleteNote_def Let_def split: option.split)

lemma at_index_min:
  "xs \<noteq> [] \<Longrightarrow> at_index xs (min (int k) (int (length xs) - 1)) = Some (xs ! min k (length xs - 1))"
  by (cases xs) (auto simp: at_index_def min_def nat_diff_distrib)

lemma at_index_Nil: "at_index [] i = None"
  by (simp add: at_index_def)

text \<open>
  C2. Deleting the note at position \<open>k\<close> of a collection with unique ids removes that note
  and no other: what is left is the notes before it followed by the notes after it. When the
  deleted note was the selected one, the selection becomes the id of the note now at position
  \<open>min k (newLength - 1)\<close>, or none when nothing is left; so deleting the selected last
  note selects the new last note. When another note was selected, the selection stays.
\<close>

theorem deleteNote_present:
  assumes "k < length (notes s)" and "id' (notes s ! k) = i" and "distinct (map id' (notes s))"
  shows "notes (deleteNote i s) = take k (notes s) @ drop (Suc k) (notes s) \<and>
         (selectedId s \<noteq> Some i \<longrightarrow> selectedId (deleteNote i s) = selectedId s) \<and>
         (selectedId s = Some i \<longrightarrow>
            selectedId (deleteNote i s) =
              (if notes (deleteNote i s) = [] then None
               else Some (id' (notes (deleteNote i s) ! min k (length (notes (deleteNote i s)) - 1))))) \<and>
         (selectedId s = Some i \<and> Suc k = length (notes s) \<longrightarrow>
            selectedId (deleteNote i s) =
              (if notes (deleteNote i s) = [] then None
               else Some (id' (last (notes (deleteNote i s))))))"
proof -
  let ?ns = "notes s" and ?next = "notes (deleteNote i s)"
  have nxt: "?next = take k ?ns @ drop (Suc k) ?ns"
    using filter_neq_distinct [OF assms(3) assms(1)] assms(2) by (simp add: notes_deleteNote)
  have "\<forall>j<k. id' (?ns ! j) \<noteq> i"
    using distinct_map_nth_neq [OF assms(3) assms(1)] assms(1,2) by auto
  then have idx: "findIndex (\<lambda>n. id' n = i) ?ns = int k"
    using assms(1,2) by (intro findIndex_first) auto
  have sel: "selectedId (deleteNote i s) =
      (if ?next = [] then None else Some (id' (?next ! min k (length ?next - 1))))"
    if "selectedId s = Some i"
  proof (cases "?next = []")
    case True
    with that show ?thesis
      using selectedId_deleteNote_selected [of s i] by (simp add: notes_deleteNote at_index_Nil)
  next
    case False
    with that show ?thesis
      using selectedId_deleteNote_selected [of s i] at_index_min [of ?next k]
      by (simp add: notes_deleteNote idx)
  qed
  have lst: "selectedId (deleteNote i s) =
      (if ?next = [] then None else Some (id' (last ?next)))"
    if "selectedId s = Some i" and "Suc k = length ?ns"
  proof (cases "?next = []")
    case True
    with sel that show ?thesis by simp
  next
    case False
    from that(2) nxt have "length ?next = k" by auto
    with False have "min k (length ?next - 1) = length ?next - 1" by simp
    with False sel [OF that(1)] show ?thesis by (simp add: last_conv_nth)
  qed
  from nxt sel lst show ?thesis
    by (simp add: selectedId_deleteNote_other)
qed


lemma find_first:
  "k < length xs \<Longrightarrow> P (xs ! k) \<Longrightarrow> \<forall>j<k. \<not> P (xs ! j) \<Longrightarrow> find P xs = Some (xs ! k)"
  by (auto simp: find_Some_iff)

lemma slice_prefix: "slice xs 0 (int k + 1) = take (Suc k) xs"
  by (simp add: slice_def slice_bound_def Let_def min_def nat_add_distrib)

lemma slice_from_suffix: "slice_from xs (int k + 1) = drop (Suc k) xs"
  by (simp add: slice_from_def slice_bound_def min_def nat_add_distrib)

lemma duplicateNote_found:
  assumes "k < length (notes s)" and "id' (notes s ! k) = i" and "\<forall>j<k. id' (notes s ! j) \<noteq> i"
  shows "duplicateNote i id2 now s =
     s\<lparr>notes := take (Suc k) (notes s) @
               [\<lparr>id' = id2, title = title (notes s ! k) @ '' (Copy)'',
                 content = content (notes s ! k), updatedAt = now\<rparr>] @
               drop (Suc k) (notes s),
       selectedId := Some id2\<rparr>"
proof -
  have f: "find (\<lambda>n. id' n = i) (notes s) = Some (notes s ! k)"
    using assms by (intro find_first) auto
  have idx: "findIndex (\<lambda>n. id' n = i) (notes s) = int k"
    using assms by (intro findIndex_first) auto
  show ?thesis
    by (simp add: duplicateNote_def f idx Let_def slice_prefix slice_from_suffix)
qed

lemma duplicateNote_absent: "i \<notin> set (ids s) \<Longrightarrow> duplicateNote i id2 now s = s"
proof -
  assume "i \<notin> set (ids s)"
  then have "find (\<lambda>n. id' n = i) (notes s) = None"
    by (auto simp: find_None_iff ids_def)
  then show ?thesis by (simp add: duplicateNote_def)
qed

lemma present_first_index:
  assumes "i \<in> set (ids s)"
  obtains k where "k < length (notes s)" and "id' (notes s ! k) = i"
    and "\<forall>j<k. id' (notes s ! j) \<noteq> i"
proof -
  from assms have "find (\<lambda>n. id' n = i) (notes s) \<noteq> None"
    by (auto simp: find_None_iff ids_def)
  then obtain n where "find (\<lambda>n. id' n = i) (notes s) = Some n" by auto
  then show thesis using that by (auto simp: find_Some_iff)
qed

text \<open>
  C4. Duplicating the note at position \<open>k\<close> (the first one with the id; the only one when
  ids are unique) puts the copy at position \<open>k + 1\<close>, right after the source and not at the
  head. The copy has the generated id, the source's title followed by \<^verbatim>\<open> (Copy)\<close>, the
  source's content and the current time. Taking the copy out again gives the old collection,
  so all other notes keep their order. The copy is selected.
\<close>

theorem duplicateNote_present:
  assumes "k < length (notes s)" and "id' (notes s ! k) = i" and "\<forall>j<k. id' (notes s ! j) \<noteq> i"
  shows "notes (duplicateNote i id2 now s) =
           take (Suc k) (notes s) @
           [\<lparr>id' = id2, title = title (notes s ! k) @ '' (Copy)'',
             content = content (notes s ! k), updatedAt = now\<rparr>] @
           drop (Suc k) (notes s) \<and>
         notes (duplicateNote i id2 now s) ! k = notes s ! k \<and>
         notes (duplicateNote i id2 now s) ! Suc k =
           \<lparr>id' = id2, title = title (notes s ! k) @ '' (Copy)'',
            content = content (notes s ! k), updatedAt = now\<rparr> \<and>
         take (Suc k) (notes (duplicateNote i id2 now s)) @
           drop (Suc (Suc k)) (notes (duplicateNote i id2 now s)) = notes s \<and>
         selectedId (duplicateNote i id2 now s) = Some id2"
proof -
  let ?dup = "\<lparr>id' = id2, title = title (notes s ! k) @ '' (Copy)'',
               content = content (notes s ! k), updatedAt = now\<rparr>"
  let ?nx = "take (Suc k) (notes s) @ [?dup] @ drop (Suc k) (notes s)"
  have eq: "notes (duplicateNote i id2 now s) = ?nx"
    and sel: "selectedId (duplicateNote i id2 now s) = Some id2"
    by (simp_all add: duplicateNote_found [OF assms])
  have len: "length (take (Suc k) (notes s)) = Suc k"
    using assms(1) by simp
  have at_k: "?nx ! k = notes s ! k"
    using assms(1) by (simp add: nth_append)
  have at_Sk: "?nx ! Suc k = ?dup"
    using len by (metis append_Cons nth_append_length)
  have rest: "take (Suc k) ?nx @ drop (Suc (Suc k)) ?nx = notes s"
    using assms(1) by (simp add: min_def)
  show ?thesis
    unfolding eq sel using at_k at_Sk rest by simp
qed


lemma map_if_distinct:
  "distinct (map f xs) \<Longrightarrow> k < length xs \<Longrightarrow>
     map (\<lambda>x. if f x = f (xs ! k) then g x else x) xs = xs[k := g (xs ! k)]"
proof (induction xs arbitrary: k)
  case Nil
  then show ?case by simp
next
  case (Cons x xs)
  show ?case
  proof (cases k)
    case 0
    from Cons.prems have "\<forall>y\<in>set xs. f y \<noteq> f x" by (auto simp: image_iff)
    then have "map (\<lambda>y. if f y = f x then g y else y) xs = xs"
      by (simp add: map_idI)
    with 0 show ?thesis by simp
  next
    case (Suc m)
    with Cons.prems have m: "m < length xs" and d: "distinct (map f xs)" by auto
    from Suc m Cons.prems have "f x \<noteq> f (xs ! m)" by auto
    with Cons.IH [OF d m] Suc show ?thesis by simp
  qed
qed

lemma ids_updateNote: "ids (updateNote i p now s) = ids s"
  by (simp add: ids_def updateNote_def merge_patch_def)

text \<open>
  C8. Updating the note at position \<open>k\<close> of a collection with unique ids replaces that
  note by its merge with the patch and touches nothing else: the length, every other
  position, the selection and the query are as before. The merged note keeps its id, takes
  the title and the content from the patch where the patch has them and keeps its own where
  not, and has the current time as \<open>updatedAt\<close>. In particular a patch with a title only
  leaves the content as it was.
\<close>

theorem updateNote_present:
  assumes "k < length (notes s)" and "id' (notes s ! k) = i" and "distinct (map id' (notes s))"
  shows "notes (updateNote i p now s) = (notes s)[k := merge_patch (notes s ! k) p now] \<and>
         id' (merge_patch (notes s ! k) p now) = i \<and>
         title (merge_patch (notes s ! k) p now) =
           (case patch_title p of None \<Rightarrow> title (notes s ! k) | Some t \<Rightarrow> t) \<and>
         content (merge_patch (notes s ! k) p now) =
           (case patch_content p of None \<Rightarrow> content (notes s ! k) | Some c \<Rightarrow> c) \<and>
         updatedAt (merge_patch (notes s ! k) p now) = now \<and>
         (\<forall>x. p = Patch (Some x) None \<longrightarrow>
            notes (updateNote i p now s) ! k =
              \<lparr>id' = i, title = x, content = content (notes s ! k), updatedAt = now\<rparr>) \<and>
         length (notes (updateNote i p now s)) = length (notes s) \<and>
         (\<forall>j<length (notes s). j \<noteq> k \<longrightarrow> notes (updateNote i p now s) ! j = notes s ! j) \<and>
         selectedId (updateNote i p now s) = selectedId s \<and>
         query (updateNote i p now s) = query s"
proof -
  have eq: "notes (updateNote i p now s) = (notes s)[k := merge_patch (notes s ! k) p now]"
    using map_if_distinct [OF assms(3) assms(1), of "\<lambda>n. merge_patch n p now"] assms(2)
    by (simp add: updateNote_def)
  have title_only: "notes (updateNote i p now s) ! k =
      \<lparr>id' = i, title = x, content = content (notes s ! k), updatedAt = now\<rparr>"
    if "p = Patch (Some x) None" for x
    using assms(1,2) that eq by (simp add: merge_patch_def)
  have fields: "id' (merge_patch (notes s ! k) p now) = i"
    "title (merge_patch (notes s ! k) p now) =
       (case patch_title p of None \<Rightarrow> title (notes s ! k) | Some t \<Rightarrow> t)"
    "content (merge_patch (notes s ! k) p now) =
       (case patch_content p of None \<Rightarrow> content (notes s ! k) | Some c \<Rightarrow> c)"
    "updatedAt (merge_patch (notes s ! k) p now) = now"
    using assms(2) by (simp_all add: merge_patch_def)
  have len: "length (notes (updateNote i p now s)) = length (notes s)"
    by (simp add: eq)
  have others: "\<forall>j<length (notes s). j \<noteq> k \<longrightarrow> notes (updateNote i p now s) ! j = notes s ! j"
    by (simp add: eq)
  have rest: "selectedId (updateNote i p now s) = selectedId s"
    "query (updateNote i p now s) = query s"
    by (simp_all add: updateNote_def)
  from eq fields title_only len others rest show ?thesis
    by blast
qed

lemma at_index_in_set: "at_index xs j = Some x \<Longrightarrow> x \<in> set xs"
  by (auto simp: at_index_def split: if_splits)

lemma selection_valid_iff:
  "selection_valid s \<longleftrightarrow> (\<forall>i. selectedId s = Some i \<longrightarrow> i \<in> set (ids s))"
  by (simp add: selection_valid_def split: option.split)

lemma selection_valid_init: "selection_valid (App_init loaded)"
  by (auto simp: selection_valid_iff App_init_def ids_def split: option.splits
      dest: at_index_in_set)

lemma selection_valid_createNote: "selection_valid (createNote newId now s)"
  by (simp add: selection_valid_iff createNote_def ids_def Let_def)

lemma selection_valid_deleteNote:
  assumes "selection_valid s"
  shows "selection_valid (deleteNote i s)"
proof (cases "selectedId s = Some i")
  case True
  then show ?thesis
    by (auto simp: selection_valid_iff ids_def notes_deleteNote selectedId_deleteNote_selected
        dest: at_index_in_set)
next
  case False
  with assms show ?thesis
    by (auto simp: selection_valid_iff ids_def notes_deleteNote selectedId_deleteNote_other)
qed

lemma selection_valid_updateNote:
  "selection_valid s \<Longrightarrow> selection_valid (updateNote i p now s)"
  by (simp add: selection_valid_iff ids_updateNote) (simp add: updateNote_def)

lemma selection_valid_duplicateNote:
  assumes "selection_valid s"
  shows "selection_valid (duplicateNote i id2 now s)"
proof (cases "i \<in> set (ids s)")
  case True
  then obtain k where "k < length (notes s)" and "id' (notes s ! k) = i"
    and "\<forall>j<k. id' (notes s ! j) \<noteq> i"
    by (rule present_first_index)
  then show ?thesis
    by (simp add: duplicateNote_found selection_valid_iff ids_def)
next
  case False
  with assms show ?thesis by (simp add: duplicateNote_absent)
qed

lemma selection_valid_step:
  "selection_valid s \<Longrightarrow> enabled s e \<Longrightarrow> selection_valid (step s e)"
proof (cases e)
  case (Select i)
  assume "enabled s e"
  with Select show ?thesis by (simp add: selection_valid_iff ids_def)
next
  case (SetQuery q)
  assume "selection_valid s"
  with SetQuery show ?thesis by (simp add: selection_valid_iff ids_def)
qed (simp_all add: selection_valid_createNote selection_valid_deleteNote
      selection_valid_updateNote selection_valid_duplicateNote)

lemma reachable_selection_valid: "reachable s \<Longrightarrow> selection_valid s"
  by (induction rule: reachable.induct) (simp_all add: selection_valid_init selection_valid_step)

text \<open>
  C3. In every state the manager can reach (from the initial state, by creating, deleting,
  updating and duplicating notes, by selecting a note of the collection and by editing the
  query), a selection that is not none is the id of a note of the collection.
\<close>

theorem selection_references_present_note:
  "reachable s \<Longrightarrow> \<forall>i. selectedId s = Some i \<longrightarrow> i \<in> set (ids s)"
  using reachable_selection_valid [of s] by (simp add: selection_valid_iff)

lemma deleteNote_absent:
  assumes "selection_valid s" and "i \<notin> set (ids s)"
  shows "deleteNote i s = s"
proof -
  from assms(2) have keep: "filter (\<lambda>n. id' n \<noteq> i) (notes s) = notes s"
    by (auto simp: ids_def filter_id_conv)
  from assms have "selectedId s \<noteq> Some i"
    by (auto simp: selection_valid_iff)
  then show ?thesis
    by (simp add: deleteNote_def Let_def keep)
qed

lemma updateNote_absent:
  assumes "i \<notin> set (ids s)"
  shows "updateNote i p now s = s"
proof -
  from assms have "map (\<lambda>n. if id' n = i then merge_patch n p now else n) (notes s) = notes s"
    by (intro map_idI) (auto simp: ids_def)
  then show ?thesis by (simp add: updateNote_def)
qed

text \<open>
  C9. In every state the manager can reach, deleting, updating and duplicating an id that no
  note of the collection has each return the state as it was: the collection, the selection
  and the query are unchanged. The three operations are total functions of the model: none
  of them can raise.
\<close>

theorem missing_id_is_noop:
  assumes "reachable s" and "i \<notin> set (ids s)"
  shows "deleteNote i s = s \<and> updateNote i p now s = s \<and> duplicateNote i id2 now s = s"
  using assms
  by (simp add: deleteNote_absent updateNote_absent duplicateNote_absent reachable_selection_valid)


lemma ids_createNote: "ids (createNote newId now s) = newId # ids s"
  by (simp add: ids_def createNote_def Let_def)

lemma ids_deleteNote: "ids (deleteNote i s) = filter (\<lambda>j. j \<noteq> i) (ids s)"
  by (simp add: ids_def notes_deleteNote filter_map comp_def)

lemma ids_duplicateNote_found:
  assumes "k < length (notes s)" and "id' (notes s ! k) = i" and "\<forall>j<k. id' (notes s ! j) \<noteq> i"
  shows "ids (duplicateNote i id2 now s) = take (Suc k) (ids s) @ [id2] @ drop (Suc k) (ids s)"
  by (simp add: duplicateNote_found [OF assms] ids_def take_map drop_map)

lemma distinct_insert_at:
  assumes "distinct xs" and "x \<notin> set xs"
  shows "distinct (take n xs @ [x] @ drop n xs)"
proof -
  have "distinct (take n xs)" and "distinct (drop n xs)"
    and "set (take n xs) \<inter> set (drop n xs) = {}"
    using assms(1) by (simp_all add: set_take_disj_set_drop_if_distinct)
  moreover have "x \<notin> set (take n xs)" and "x \<notin> set (drop n xs)"
    using assms(2) by (auto dest: in_set_takeD in_set_dropD)
  ultimately show ?thesis by auto
qed

lemma distinct_ids_duplicateNote:
  assumes "distinct (ids s)" and "i \<in> set (ids s) \<longrightarrow> id2 \<notin> set (ids s)"
  shows "distinct (ids (duplicateNote i id2 now s))"
proof (cases "i \<in> set (ids s)")
  case True
  then obtain k where k: "k < length (notes s)" "id' (notes s ! k) = i"
    "\<forall>j<k. id' (notes s ! j) \<noteq> i"
    by (rule present_first_index)
  from True assms(2) have "id2 \<notin> set (ids s)" by simp
  with assms(1) have "distinct (take (Suc k) (ids s) @ [id2] @ drop (Suc k) (ids s))"
    by (rule distinct_insert_at)
  then show ?thesis
    by (simp only: ids_duplicateNote_found [OF k])
next
  case False
  with assms(1) show ?thesis by (simp add: duplicateNote_absent)
qed

lemma distinct_ids_step:
  "distinct (ids s) \<Longrightarrow> generates_fresh s e \<Longrightarrow> distinct (ids (step s e))"
proof (cases e)
  case (Select i)
  assume "distinct (ids s)"
  with Select show ?thesis by (simp add: ids_def)
next
  case (SetQuery q)
  assume "distinct (ids s)"
  with SetQuery show ?thesis by (simp add: ids_def)
qed (simp_all add: ids_createNote ids_deleteNote ids_updateNote distinct_ids_duplicateNote)

text \<open>
  C1. Starting from a collection with unique ids, after any sequence of actions in which every
  generated id is fresh (not the id of a note of the collection at that moment), the ids of the
  collection are still unique.
\<close>

theorem ids_stay_unique:
  "distinct (ids s) \<Longrightarrow> fresh_run s es \<Longrightarrow> distinct (ids (foldl step s es))"
proof (induction es arbitrary: s)
  case Nil
  then show ?case by simp
next
  case (Cons e es)
  from Cons.prems have "distinct (ids (step s e))" and "fresh_run (step s e) es"
    by (simp_all add: distinct_ids_step)
  then show ?case
    using Cons.IH by simp
qed

lemma includes_str_iff: "includes_str s q \<longleftrightarrow> (\<exists>ps ss. s = ps @ q @ ss)"
proof -
  have "includes_str s q \<longleftrightarrow> sublist q s"
    by (induction s) (simp_all add: sublist_Cons_right)
  then show ?thesis by (simp add: sublist_def)
qed

text \<open>
  C5. The filter is a function of \<open>notes\<close> and \<open>query\<close> alone. With \<open>q\<close> the query
  trimmed and lowercased: when \<open>q\<close> is empty the result is the input sequence itself; when
  it is not, the result is the notes, in their order, whose lowercased
  \<^verbatim>\<open>title + ' ' + content\<close> has \<open>q\<close> as a substring. In both cases the result is a
  subsequence of the input.
\<close>

theorem filtered_spec:
  "(toLowerCase (trim qry) = [] \<longrightarrow> filtered trim toLowerCase ns qry = ns) \<and>
   (toLowerCase (trim qry) \<noteq> [] \<longrightarrow>
      filtered trim toLowerCase ns qry =
        filter (\<lambda>n. \<exists>ps ss. toLowerCase (title n @ '' '' @ content n) =
                              ps @ toLowerCase (trim qry) @ ss) ns) \<and>
   subseq (filtered trim toLowerCase ns qry) ns"
proof (intro conjI impI)
  assume "toLowerCase (trim qry) = []"
  then show "filtered trim toLowerCase ns qry = ns"
    by (simp add: filtered_def)
next
  assume "toLowerCase (trim qry) \<noteq> []"
  then show "filtered trim toLowerCase ns qry =
      filter (\<lambda>n. \<exists>ps ss. toLowerCase (title n @ '' '' @ content n) =
                            ps @ toLowerCase (trim qry) @ ss) ns"
    by (simp add: filtered_def Let_def includes_str_iff)
next
  show "subseq (filtered trim toLowerCase ns qry) ns"
    by (simp add: filtered_def Let_def)
qed

subsection \<open>The codec reads back what it writes for notes\<close>

text \<open>
  The two facts about the platform that the round trip of \<^verbatim>\<open>saveNotes\<close> and
  \<^verbatim>\<open>loadNotes\<close> rests on are not empty: the executable codec has them, for every
  sequence of notes, whatever strings and timestamps the notes hold.
\<close>

lemma digit_char_props:
  assumes "k < 10"
  shows "is_digit (''0123456789'' ! k)" and "digit_value (''0123456789'' ! k) = k"
    and "''0123456789'' ! k = CHR ''0'' \<longleftrightarrow> k = 0"
    and "''0123456789'' ! k \<noteq> CHR ''-''"
proof -
  from assms consider "k = 0" | "k = 1" | "k = 2" | "k = 3" | "k = 4" | "k = 5" | "k = 6"
    | "k = 7" | "k = 8" | "k = 9"
    by atomize_elim arith
  then have "is_digit (''0123456789'' ! k) \<and> digit_value (''0123456789'' ! k) = k \<and>
      (''0123456789'' ! k = CHR ''0'' \<longleftrightarrow> k = 0) \<and> ''0123456789'' ! k \<noteq> CHR ''-''"
    by cases (simp_all add: is_digit_def digit_value_def)
  then show "is_digit (''0123456789'' ! k)" and "digit_value (''0123456789'' ! k) = k"
    and "''0123456789'' ! k = CHR ''0'' \<longleftrightarrow> k = 0"
    and "''0123456789'' ! k \<noteq> CHR ''-''"
    by simp_all
qed

lemma digits_nonempty: "digits n \<noteq> []"
  by (subst digits.simps) simp

lemma digits_all: "\<forall>c\<in>set (digits n). is_digit c"
proof (induction n rule: digits.induct)
  case (1 n)
  show ?case
  proof (cases "n < 10")
    case True
    then show ?thesis
      by (subst digits.simps) (simp add: digit_char_props(1))
  next
    case False
    with 1 have "\<forall>c\<in>set (digits (n div 10)). is_digit c" by simp
    moreover have "is_digit (''0123456789'' ! (n mod 10))"
      by (rule digit_char_props(1)) simp
    ultimately show ?thesis
      using False by (subst digits.simps) simp
  qed
qed

lemma digits_value: "foldl (\<lambda>m c. 10 * m + digit_value c) 0 (digits n) = n"
proof (induction n rule: digits.induct)
  case (1 n)
  show ?case
  proof (cases "n < 10")
    case True
    then show ?thesis
      by (subst digits.simps) (simp add: digit_char_props(2))
  next
    case False
    with 1 have "foldl (\<lambda>m c. 10 * m + digit_value c) 0 (digits (n div 10)) = n div 10"
      by simp
    moreover have "digit_value (''0123456789'' ! (n mod 10)) = n mod 10"
      by (rule digit_char_props(2)) simp
    ultimately show ?thesis
      using False by (subst digits.simps) simp
  qed
qed

lemma digits_hd: "hd (digits n) = CHR ''0'' \<longleftrightarrow> n = 0"
proof (induction n rule: digits.induct)
  case (1 n)
  show ?case
  proof (cases "n < 10")
    case True
    then show ?thesis
      by (subst digits.simps) (simp add: digit_char_props(3))
  next
    case False
    with 1 have "hd (digits (n div 10)) = CHR ''0'' \<longleftrightarrow> n div 10 = 0" by simp
    moreover from False have "n div 10 \<noteq> 0" and "n \<noteq> 0" by simp_all
    ultimately show ?thesis
      using False digits_nonempty [of "n div 10"] by (subst digits.simps) simp
  qed
qed

lemma digits_hd_not_minus: "hd (digits n) \<noteq> CHR ''-''"
  using digits_all [of n] digits_nonempty [of n]
  by (cases "digits n") (auto simp: is_digit_def)

lemma digits_long: "1 < length (digits n) \<Longrightarrow> n \<noteq> 0"
  by (subst (asm) digits.simps) (simp split: if_splits)

lemma takeWhile_digits:
  assumes "ends_number r"
  shows "takeWhile is_digit (digits n @ r) = digits n" and "dropWhile is_digit (digits n @ r) = r"
proof -
  from assms have "takeWhile is_digit r = []" and "dropWhile is_digit r = r"
    by (cases r; simp add: ends_number_def)+
  then show "takeWhile is_digit (digits n @ r) = digits n"
    and "dropWhile is_digit (digits n @ r) = r"
    using digits_all [of n] by (simp_all add: takeWhile_append2 dropWhile_append2)
qed

lemma parse_nat_digits:
  assumes "ends_number r"
  shows "parse_nat (digits n @ r) = Some (n, r)"
proof -
  have "\<not> (1 < length (digits n) \<and> hd (digits n) = CHR ''0'')"
    using digits_long [of n] digits_hd [of n] by blast
  then show ?thesis
    unfolding parse_nat_def Let_def takeWhile_digits [OF assms]
    by (simp add: digits_nonempty digits_value)
qed

lemma parse_int_print_int:
  assumes "ends_number r"
  shows "parse_int (print_int i @ r) = Some (i, r)"
proof (cases "i < 0")
  case True
  then show ?thesis
    by (simp add: parse_int_def print_int_def parse_nat_digits [OF assms])
next
  case False
  obtain c cs where d: "digits (nat i) = c # cs"
    using digits_nonempty [of "nat i"] by (cases "digits (nat i)") auto
  with digits_hd_not_minus [of "nat i"] have "c \<noteq> CHR ''-''" by simp
  moreover have "parse_nat ((c # cs) @ r) = Some (nat i, r)"
    using parse_nat_digits [OF assms, of "nat i"] d by simp
  ultimately show ?thesis
    using False by (simp add: parse_int_def print_int_def d)
qed

lemma hex_value_hex_digit:
  assumes "k < 16"
  shows "hex_value (hex_digit k) = Some k"
proof -
  from assms consider "k = 0" | "k = 1" | "k = 2" | "k = 3" | "k = 4" | "k = 5" | "k = 6"
    | "k = 7" | "k = 8" | "k = 9" | "k = 10" | "k = 11" | "k = 12" | "k = 13" | "k = 14"
    | "k = 15"
    by atomize_elim arith
  then show ?thesis
    by cases (simp_all add: hex_value_def hex_digit_def)
qed

lemma parse_hex4_control:
  assumes "(of_char c :: nat) < 32"
  shows "parse_hex4 (CHR ''0'' # CHR ''0'' # hex_digit (of_char c div 16) #
           hex_digit (of_char c mod 16) # rest) = Some c"
proof -
  have z: "hex_value CHR ''0'' = Some 0"
    by (simp add: hex_value_def)
  have hi: "hex_value (hex_digit (of_char c div 16)) = Some (of_char c div 16)"
    using assms by (intro hex_value_hex_digit) simp
  have lo: "hex_value (hex_digit (of_char c mod 16)) = Some (of_char c mod 16)"
    by (intro hex_value_hex_digit) simp
  show ?thesis
    by (simp add: parse_hex4_def z hi lo)
qed

lemma parse_chars_escape:
  "parse_chars (escape c @ rest) = map_option (\<lambda>(x, r'). (c # x, r')) (parse_chars rest)"
proof -
  consider (short) "c \<in> {CHR 0x22, CHR 0x5C, CHR 0x08, CHR 0x0C, CHR 0x0A, CHR 0x0D, CHR 0x09}"
    | (control) "c \<notin> {CHR 0x22, CHR 0x5C, CHR 0x08, CHR 0x0C, CHR 0x0A, CHR 0x0D, CHR 0x09}"
        "(of_char c :: nat) < 32"
    | (plain) "c \<notin> {CHR 0x22, CHR 0x5C, CHR 0x08, CHR 0x0C, CHR 0x0A, CHR 0x0D, CHR 0x09}"
        "\<not> (of_char c :: nat) < 32"
    by blast
  then show ?thesis
  proof cases
    case short
    then show ?thesis
      by (auto simp: escape_def unescape_def)
  next
    case control
    then show ?thesis
      by (simp add: escape_def parse_hex4_control)
  next
    case plain
    then show ?thesis
      by (simp add: escape_def)
  qed
qed

lemma parse_chars_escaped:
  "parse_chars (concat (map escape s) @ CHR 0x22 # r) = Some (s, r)"
  by (induction s) (simp_all add: parse_chars_escape)

lemma print_string_head: "print_string s = CHR 0x22 # concat (map escape s) @ [CHR 0x22]"
  by (simp add: print_string_def)

lemma skip_ws_no_ws: "\<not> is_ws c \<Longrightarrow> skip_ws (c # r) = c # r"
  by (simp add: skip_ws_def)

lemma parse_value_string:
  "parse_value (Suc f) (print_string s @ r) = Some (JStr s, r)"
  by (simp add: print_string_def skip_ws_def is_ws_def parse_chars_escaped)

lemma print_int_head:
  obtains c cs where "print_int i = c # cs" and "is_digit c \<or> c = CHR ''-''"
proof (cases "i < 0")
  case True
  then show thesis
    using that by (simp add: print_int_def)
next
  case False
  obtain c cs where d: "digits (nat i) = c # cs"
    using digits_nonempty [of "nat i"] by (cases "digits (nat i)") auto
  with digits_all [of "nat i"] have "is_digit c" by simp
  with False d show thesis
    using that by (simp add: print_int_def)
qed

lemma parse_value_number:
  assumes "ends_number r"
  shows "parse_value (Suc f) (print_int i @ r) = Some (JNum i, r)"
proof -
  obtain c cs where p: "print_int i = c # cs" and c: "is_digit c \<or> c = CHR ''-''"
    by (rule print_int_head)
  from c have "\<not> is_ws c" and "c \<noteq> CHR 0x22" and "c \<noteq> CHR ''[''" and "c \<noteq> CHR ''{''"
    and "c \<noteq> CHR ''n''" and "c \<noteq> CHR ''t''" and "c \<noteq> CHR ''f''"
    by (auto simp: is_digit_def is_ws_def)
  moreover have "parse_int (c # cs @ r) = Some (i, r)"
    using parse_int_print_int [OF assms, of i] p by simp
  ultimately show ?thesis
    by (simp add: p skip_ws_def)
qed

lemma parse_members_last:
  assumes "parse_value f (pv @ CHR ''}'' # r) = Some (v, CHR ''}'' # r)"
  shows "parse_members (Suc f) (print_string k @ CHR '':'' # pv @ CHR ''}'' # r) = Some ([(k, v)], r)"
  using assms
  by (simp add: print_string_def skip_ws_def is_ws_def parse_chars_escaped)

lemma parse_members_more:
  assumes "parse_value f (pv @ CHR '','' # rest) = Some (v, CHR '','' # rest)"
    and "parse_members f rest = Some (ms, r)"
  shows "parse_members (Suc f) (print_string k @ CHR '':'' # pv @ CHR '','' # rest) =
           Some ((k, v) # ms, r)"
  using assms
  by (simp add: print_string_def skip_ws_def is_ws_def parse_chars_escaped)

lemma parse_value_object:
  assumes "parse_members f (CHR 0x22 # m) = Some (ms, r)"
  shows "parse_value (Suc f) (CHR ''{'' # CHR 0x22 # m) = Some (JObj ms, r)"
  using assms by (simp add: skip_ws_def is_ws_def)

lemma ends_number_simps: "ends_number (CHR ''}'' # r)" "ends_number []"
  by (simp_all add: ends_number_def is_digit_def)

lemma print_json_note:
  "print_json (note_json n) =
     CHR ''{'' # print_string ''id'' @ CHR '':'' # print_string (id' n) @
     CHR '','' # print_string ''title'' @ CHR '':'' # print_string (title n) @
     CHR '','' # print_string ''content'' @ CHR '':'' # print_string (content n) @
     CHR '','' # print_string ''updatedAt'' @ CHR '':'' # print_int (updatedAt n) @ ''}''"
  by (simp add: note_json_def)

lemma parse_value_note:
  "parse_value (Suc (Suc (Suc (Suc (Suc (Suc f)))))) (print_json (note_json n) @ r) =
     Some (note_json n, r)"
proof -
  let ?m4 = "print_string ''updatedAt'' @ CHR '':'' # print_int (updatedAt n) @ CHR ''}'' # r"
  let ?m3 = "print_string ''content'' @ CHR '':'' # print_string (content n) @ CHR '','' # ?m4"
  let ?m2 = "print_string ''title'' @ CHR '':'' # print_string (title n) @ CHR '','' # ?m3"
  let ?m1 = "print_string ''id'' @ CHR '':'' # print_string (id' n) @ CHR '','' # ?m2"
  have p4: "parse_members (Suc (Suc f)) ?m4 = Some ([(''updatedAt'', JNum (updatedAt n))], r)"
    by (intro parse_members_last parse_value_number ends_number_simps)
  have p3: "parse_members (Suc (Suc (Suc f))) ?m3 =
      Some ([(''content'', JStr (content n)), (''updatedAt'', JNum (updatedAt n))], r)"
    by (intro parse_members_more parse_value_string p4)
  have p2: "parse_members (Suc (Suc (Suc (Suc f)))) ?m2 =
      Some ([(''title'', JStr (title n)), (''content'', JStr (content n)),
             (''updatedAt'', JNum (updatedAt n))], r)"
    by (intro parse_members_more parse_value_string p3)
  have p1: "parse_members (Suc (Suc (Suc (Suc (Suc f))))) ?m1 =
      Some ([(''id'', JStr (id' n)), (''title'', JStr (title n)), (''content'', JStr (content n)),
             (''updatedAt'', JNum (updatedAt n))], r)"
    by (intro parse_members_more parse_value_string p2)
  obtain m where start: "?m1 = CHR 0x22 # m"
    by (simp add: print_string_def)
  have "print_json (note_json n) @ r = CHR ''{'' # CHR 0x22 # m"
    using start by (simp add: print_json_note)
  moreover have "parse_value (Suc (Suc (Suc (Suc (Suc (Suc f)))))) (CHR ''{'' # CHR 0x22 # m) =
      Some (note_json n, r)"
    using p1 unfolding start
    by (intro parse_value_object [THEN trans]) (simp_all add: note_json_def)
  ultimately show ?thesis by simp
qed

lemma parse_value_note_fuel:
  assumes "6 \<le> f"
  shows "parse_value f (print_json (note_json n) @ r) = Some (note_json n, r)"
proof -
  from assms have "f = Suc (Suc (Suc (Suc (Suc (Suc (f - 6))))))"
    by simp
  then show ?thesis
    using parse_value_note [of "f - 6" n r] by simp
qed

lemma parse_elements_last:
  assumes "parse_value g (pv @ CHR '']'' # r) = Some (v, CHR '']'' # r)"
  shows "parse_elements (Suc g) (pv @ CHR '']'' # r) = Some ([v], r)"
  using assms by (simp add: skip_ws_def is_ws_def)

lemma parse_elements_more:
  assumes "parse_value g (pv @ CHR '','' # rest) = Some (v, CHR '','' # rest)"
    and "parse_elements g rest = Some (vs, r)"
  shows "parse_elements (Suc g) (pv @ CHR '','' # rest) = Some (v # vs, r)"
  using assms by (simp add: skip_ws_def is_ws_def)

lemma parse_elements_notes:
  "ns \<noteq> [] \<Longrightarrow> length ns + 6 \<le> f \<Longrightarrow>
     parse_elements f (print_elements (map note_json ns) @ CHR '']'' # r) = Some (map note_json ns, r)"
proof (induction ns arbitrary: f)
  case Nil
  then show ?case by simp
next
  case (Cons n ns)
  from Cons.prems obtain g where f: "f = Suc g" and g: "length ns + 6 \<le> g"
    by (cases f) auto
  show ?case
  proof (cases ns)
    case Nil
    have "parse_elements (Suc g) (print_json (note_json n) @ CHR '']'' # r) = Some ([note_json n], r)"
      using g by (intro parse_elements_last parse_value_note_fuel) simp
    then show ?thesis
      by (simp add: Nil f)
  next
    case (Cons m ms)
    let ?rest = "print_elements (map note_json ns) @ CHR '']'' # r"
    have e: "parse_elements g ?rest = Some (map note_json ns, r)"
      using g Cons by (intro Cons.IH) simp_all
    have "parse_elements (Suc g) (print_json (note_json n) @ CHR '','' # ?rest) =
        Some (note_json n # map note_json ns, r)"
      using g by (intro parse_elements_more parse_value_note_fuel e) simp
    moreover have "print_elements (map note_json (n # ns)) @ CHR '']'' # r =
        print_json (note_json n) @ CHR '','' # ?rest"
      by (simp add: Cons)
    ultimately show ?thesis
      by (simp only: f list.map)
  qed
qed

lemma length_print_note: "5 \<le> length (print_json (note_json n))"
  by (simp add: print_json_note)

lemma length_print_elements_notes: "5 * length ns \<le> length (print_elements (map note_json ns))"
proof (induction ns)
  case Nil
  then show ?case by simp
next
  case (Cons n ns)
  then show ?case
    using length_print_note [of n] by (cases ns) simp_all
qed

lemma print_elements_notes_head:
  assumes "ns \<noteq> []"
  obtains t where "print_elements (map note_json ns) = CHR ''{'' # t"
proof -
  from assms obtain n ms where ns: "ns = n # ms" by (cases ns) auto
  show thesis
    using that by (cases ms) (simp_all add: ns print_json_note)
qed

lemma parse_value_array:
  assumes "parse_elements f (CHR ''{'' # t) = Some (vs, r)"
  shows "parse_value (Suc f) (CHR ''['' # CHR ''{'' # t) = Some (JArr vs, r)"
  using assms by (simp add: skip_ws_def is_ws_def)

lemma parse_json_complete:
  assumes "parse_value (Suc (length s)) s = Some (v, [])"
  shows "parse_json s = Inr v"
  using assms by (simp add: parse_json_def skip_ws_def)

lemma parse_json_empty: "parse_json [] = Inl SyntaxError"
  by (simp add: parse_json_def skip_ws_def)

lemma parse_json_print_notes:
  "parse_json (print_json (JArr (map note_json ns))) = Inr (JArr (map note_json ns))"
proof (cases "ns = []")
  case True
  then show ?thesis
    by (simp add: parse_json_def skip_ws_def is_ws_def)
next
  case False
  let ?pe = "print_elements (map note_json ns)"
  obtain t where t: "?pe = CHR ''{'' # t"
    using False by (rule print_elements_notes_head)
  define s where "s = CHR ''['' # CHR ''{'' # t @ '']''"
  have s: "print_json (JArr (map note_json ns)) = s"
    by (simp add: t s_def)
  have len: "length s = Suc (Suc (length ?pe))"
    by (simp add: t s_def)
  have "length ns + 6 \<le> length s"
    using length_print_elements_notes [of ns] False by (cases ns) (simp_all add: len)
  then have "parse_elements (length s) (?pe @ CHR '']'' # []) = Some (map note_json ns, [])"
    using False by (intro parse_elements_notes)
  then have "parse_elements (length s) (CHR ''{'' # t @ '']'') = Some (map note_json ns, [])"
    by (simp add: t)
  then have "parse_value (Suc (length s)) (CHR ''['' # CHR ''{'' # t @ '']'') =
      Some (JArr (map note_json ns), [])"
    by (rule parse_value_array)
  then have "parse_value (Suc (length s)) s = Some (JArr (map note_json ns), [])"
    by (simp add: s_def)
  then show ?thesis
    unfolding s by (rule parse_json_complete)
qed


section \<open>Concrete instances\<close>

text \<open>
  Each theorem above that has a hypothesis, applied to concrete notes, stores and action
  sequences: the scenarios of the specification among them (\<^verbatim>\<open>[A,B,C]\<close>, select
  \<^verbatim>\<open>c\<close>, delete \<^verbatim>\<open>c\<close>; \<^verbatim>\<open>[A]\<close>, delete \<^verbatim>\<open>a\<close>; \<^verbatim>\<open>[A,B]\<close>, duplicate \<^verbatim>\<open>a\<close>).
\<close>

lemmas sample_defs = noteA_def noteB_def noteC_def

theorem ids_stay_unique_witness:
  "distinct (ids (App_init [noteA, noteB])) \<and>
   fresh_run (App_init [noteA, noteB])
     [Create ''n1'' 5, Duplicate ''a'' ''n2'' 6, Update ''b'' (Patch (Some ''T'') None) 7, Delete ''a''] \<and>
   distinct (ids (foldl step (App_init [noteA, noteB])
     [Create ''n1'' 5, Duplicate ''a'' ''n2'' 6, Update ''b'' (Patch (Some ''T'') None) 7, Delete ''a'']))"
proof -
  have d: "distinct (ids (App_init [noteA, noteB]))"
    by code_simp
  have f: "fresh_run (App_init [noteA, noteB])
     [Create ''n1'' 5, Duplicate ''a'' ''n2'' 6, Update ''b'' (Patch (Some ''T'') None) 7, Delete ''a'']"
    by code_simp
  from d f ids_stay_unique [OF d f] show ?thesis by simp
qed

theorem deleteNote_present_witness:
  "notes (deleteNote ''c'' \<lparr>notes = [noteA, noteB, noteC], selectedId = Some ''c'', query = ''''\<rparr>)
     = [noteA, noteB] \<and>
   selectedId (deleteNote ''c'' \<lparr>notes = [noteA, noteB, noteC], selectedId = Some ''c'', query = ''''\<rparr>)
     = Some ''b'' \<and>
   notes (deleteNote ''a'' \<lparr>notes = [noteA], selectedId = Some ''a'', query = ''''\<rparr>) = [] \<and>
   selectedId (deleteNote ''a'' \<lparr>notes = [noteA], selectedId = Some ''a'', query = ''''\<rparr>) = None"
  using deleteNote_present
    [of 2 "\<lparr>notes = [noteA, noteB, noteC], selectedId = Some ''c'', query = ''''\<rparr>" "''c''"]
    deleteNote_present [of 0 "\<lparr>notes = [noteA], selectedId = Some ''a'', query = ''''\<rparr>" "''a''"]
  by (simp add: sample_defs)

theorem selection_references_present_note_witness:
  "reachable (step (step (App_init [noteA, noteB]) (Create ''n1'' 5)) (Delete ''n1'')) \<and>
   selectedId (step (step (App_init [noteA, noteB]) (Create ''n1'' 5)) (Delete ''n1'')) = Some ''a'' \<and>
   ''a'' \<in> set (ids (step (step (App_init [noteA, noteB]) (Create ''n1'' 5)) (Delete ''n1'')))"
proof -
  let ?s = "step (step (App_init [noteA, noteB]) (Create ''n1'' 5)) (Delete ''n1'')"
  have r: "reachable ?s"
    by (intro reachable.step reachable.init) simp_all
  have sel: "selectedId ?s = Some ''a''"
    by code_simp
  from selection_references_present_note [OF r] sel have "''a'' \<in> set (ids ?s)"
    by blast
  with r sel show ?thesis by blast
qed

theorem duplicateNote_present_witness:
  "notes (duplicateNote ''a'' ''n2'' 9 \<lparr>notes = [noteA, noteB], selectedId = Some ''b'', query = ''''\<rparr>)
     = [noteA, \<lparr>id' = ''n2'', title = ''Shopping (Copy)'', content = ''milk'', updatedAt = 9\<rparr>, noteB] \<and>
   selectedId (duplicateNote ''a'' ''n2'' 9
     \<lparr>notes = [noteA, noteB], selectedId = Some ''b'', query = ''''\<rparr>) = Some ''n2''"
  using duplicateNote_present
    [of 0 "\<lparr>notes = [noteA, noteB], selectedId = Some ''b'', query = ''''\<rparr>" "''a''" "''n2''" 9]
  by (simp add: sample_defs)

theorem updateNote_present_witness:
  "notes (updateNote ''b'' (Patch (Some ''X'') None) 9
      \<lparr>notes = [noteA, noteB, noteC], selectedId = Some ''a'', query = ''''\<rparr>)
     = [noteA, \<lparr>id' = ''b'', title = ''X'', content = ''Call Bob'', updatedAt = 9\<rparr>, noteC] \<and>
   selectedId (updateNote ''b'' (Patch (Some ''X'') None) 9
      \<lparr>notes = [noteA, noteB, noteC], selectedId = Some ''a'', query = ''''\<rparr>) = Some ''a''"
  using updateNote_present
    [of 1 "\<lparr>notes = [noteA, noteB, noteC], selectedId = Some ''a'', query = ''''\<rparr>" "''b''"
        "Patch (Some ''X'') None" 9]
  by (simp add: sample_defs merge_patch_def)

theorem missing_id_is_noop_witness:
  "reachable (App_init [noteA, noteB]) \<and> ''zz'' \<notin> set (ids (App_init [noteA, noteB])) \<and>
   deleteNote ''zz'' (App_init [noteA, noteB]) = App_init [noteA, noteB] \<and>
   updateNote ''zz'' (Patch None (Some ''text'')) 9 (App_init [noteA, noteB]) = App_init [noteA, noteB] \<and>
   duplicateNote ''zz'' ''n3'' 9 (App_init [noteA, noteB]) = App_init [noteA, noteB]"
proof -
  have r: "reachable (App_init [noteA, noteB])"
    by (rule reachable.init)
  have a: "''zz'' \<notin> set (ids (App_init [noteA, noteB]))"
    by code_simp
  from r a missing_id_is_noop [OF r a, of "Patch None (Some ''text'')" 9 "''n3''"]
  show ?thesis by simp
qed

theorem filtered_spec_witness:
  "toLowerCase_ascii (trim_spaces ''   '') = [] \<and>
   filtered trim_spaces toLowerCase_ascii [noteA, noteB, noteC] ''   '' = [noteA, noteB, noteC] \<and>
   toLowerCase_ascii (trim_spaces '' MILK '') \<noteq> [] \<and>
   filtered trim_spaces toLowerCase_ascii [noteA, noteB, noteC] '' MILK '' = [noteA]"
proof -
  have e: "toLowerCase_ascii (trim_spaces ''   '') = []"
    by code_simp
  have n: "toLowerCase_ascii (trim_spaces '' MILK '') = ''milk''"
    by code_simp
  have l: "toLowerCase_ascii (title noteA @ '' '' @ content noteA) = ''shopping milk''"
    "toLowerCase_ascii (title noteB @ '' '' @ content noteB) = ''work call bob''"
    "toLowerCase_ascii (title noteC @ '' '' @ content noteC) = ''ideas ''"
    by code_simp+
  have i: "includes_str ''shopping milk'' ''milk''" "\<not> includes_str ''work call bob'' ''milk''"
    "\<not> includes_str ''ideas '' ''milk''"
    by code_simp+
  have "filtered trim_spaces toLowerCase_ascii [noteA, noteB, noteC] ''   '' = [noteA, noteB, noteC]"
    using filtered_spec [of toLowerCase_ascii trim_spaces "''   ''" "[noteA, noteB, noteC]"] e
    by simp
  moreover have "filtered trim_spaces toLowerCase_ascii [noteA, noteB, noteC] '' MILK '' = [noteA]"
  proof -
    have "filtered trim_spaces toLowerCase_ascii [noteA, noteB, noteC] '' MILK '' =
        filter (\<lambda>n. includes_str (toLowerCase_ascii (title n @ '' '' @ content n)) ''milk'')
          [noteA, noteB, noteC]"
      using filtered_spec [of toLowerCase_ascii trim_spaces "'' MILK ''" "[noteA, noteB, noteC]"]
      by (simp add: n includes_str_iff)
    also have "\<dots> = [noteA]"
      by (simp only: filter.simps l i if_True if_False)
    finally show ?thesis .
  qed
  ultimately show ?thesis using e n by simp
qed

theorem loadNotes_never_throws_witness:
  \<open>loadNotes parse_json Map.empty = Inr [] \<and>
   loadNotes parse_json [STORAGE_KEY \<mapsto> ''{"id":''] = Inr [] \<and>
   loadNotes parse_json [STORAGE_KEY \<mapsto> ''{"id":"a"}''] = Inr []\<close>
proof (intro conjI)
  show "loadNotes parse_json Map.empty = Inr []"
    using loadNotes_never_throws [of parse_json Map.empty] by simp
next
  have \<open>parse_json ''{"id":'' = Inl SyntaxError\<close>
    by code_simp
  then show \<open>loadNotes parse_json [STORAGE_KEY \<mapsto> ''{"id":''] = Inr []\<close>
    using loadNotes_never_throws [of parse_json \<open>[STORAGE_KEY \<mapsto> ''{"id":'']\<close>] by simp
next
  have \<open>parse_json ''{"id":"a"}'' = Inr (JObj [(''id'', JStr ''a'')])\<close>
    by code_simp
  moreover have "\<not> isArray (JObj [(''id'', JStr ''a'')])"
    by simp
  ultimately show \<open>loadNotes parse_json [STORAGE_KEY \<mapsto> ''{"id":"a"}''] = Inr []\<close>
    using loadNotes_never_throws [of parse_json \<open>[STORAGE_KEY \<mapsto> ''{"id":"a"}'']\<close>] by simp
qed

theorem loadNotes_returns_parsed_array_witness:
  \<open>loadNotes parse_json [STORAGE_KEY \<mapsto> ''[1, "x", {"title":"T"}]''] =
     Inr [JNum 1, JStr ''x'', JObj [(''title'', JStr ''T'')]]\<close>
proof -
  have \<open>parse_json ''[1, "x", {"title":"T"}]'' =
      Inr (JArr [JNum 1, JStr ''x'', JObj [(''title'', JStr ''T'')]])\<close>
    by code_simp
  moreover have "parse_json [] = Inl SyntaxError"
    by code_simp
  ultimately show ?thesis
    by (intro loadNotes_returns_parsed_array [where raw = \<open>''[1, "x", {"title":"T"}]''\<close>]) simp_all
qed

theorem saveNotes_loadNotes_roundtrip_witness:
  "loadNotes parse_json
     (saveNotes print_json [STORAGE_KEY \<mapsto> ''[]''] (map note_json [noteA, noteB])) =
   Inr (map note_json [noteA, noteB])"
proof -
  have "parse_json (print_json (JArr (map note_json [noteA, noteB]))) =
      Inr (JArr (map note_json [noteA, noteB]))"
    by code_simp
  moreover have "parse_json [] = Inl SyntaxError"
    by code_simp
  ultimately show ?thesis
    by (rule saveNotes_loadNotes_roundtrip)
qed

end
